theory Spec2Isabelle
  imports Complex_Main "HOL-Library.Sublist"
begin

section \<open>The BPE tokenizer of \<^verbatim>\<open>clip/tokenizer.py\<close>\<close>

text \<open>
  Python strings are modelled as \<^typ>\<open>string\<close>, read as sequences of the code points
  U+0000 to U+00FF. The character classes of the coarse-split pattern
  (\<^verbatim>\<open>\s\<close>, \<^verbatim>\<open>\p{L}\<close>, \<^verbatim>\<open>\p{N}\<close>) and \<^verbatim>\<open>str.lower\<close> are the Unicode
  ones restricted to that range.
\<close>

subsection \<open>Character classes and lower-casing\<close>

definition is_space :: "char \<Rightarrow> bool" where
  "is_space c = (let n = (of_char c :: nat)
                 in (9 \<le> n \<and> n \<le> 13) \<or> n = 32 \<or> n = 133 \<or> n = 160)"

definition is_letter :: "char \<Rightarrow> bool" where
  "is_letter c = (let n = (of_char c :: nat)
                  in (65 \<le> n \<and> n \<le> 90) \<or> (97 \<le> n \<and> n \<le> 122)
                     \<or> n = 170 \<or> n = 181 \<or> n = 186
                     \<or> (192 \<le> n \<and> n \<le> 214) \<or> (216 \<le> n \<and> n \<le> 246) \<or> 248 \<le> n)"

definition is_number :: "char \<Rightarrow> bool" where
  "is_number c = (let n = (of_char c :: nat)
                  in (48 \<le> n \<and> n \<le> 57) \<or> n = 178 \<or> n = 179 \<or> n = 185
                     \<or> (188 \<le> n \<and> n \<le> 190))"

definition is_other :: "char \<Rightarrow> bool" where
  "is_other c = (\<not> is_space c \<and> \<not> is_letter c \<and> \<not> is_number c)"

definition lower_char :: "char \<Rightarrow> char" where
  "lower_char c = (let n = (of_char c :: nat)
                   in if (65 \<le> n \<and> n \<le> 90) \<or> (192 \<le> n \<and> n \<le> 222 \<and> n \<noteq> 215)
                      then char_of (n + 32) else c)"

definition lower :: "string \<Rightarrow> string" where
  "lower s = map lower_char s"

subsection \<open>Whitespace clean-up and the coarse split\<close>

text \<open>\<^verbatim>\<open>regex.sub(r"\s+", " ", s)\<close>: every maximal run of whitespace becomes one space.\<close>

function sub_spaces :: "string \<Rightarrow> string" where
  "sub_spaces [] = []"
| "sub_spaces (c # cs) =
     (if is_space c then CHR '' '' # sub_spaces (dropWhile is_space cs)
      else c # sub_spaces cs)"
  by pat_completeness auto
termination
  by (relation "measure length") (auto simp: length_dropWhile_le less_Suc_eq_le)

definition bos :: string where
  "bos = ''<|startoftext|>''"

definition eos :: string where
  "eos = ''<|endoftext|>''"

text \<open>The literal alternatives of \<^verbatim>\<open>self.pat\<close>, in the order of the pattern.\<close>

definition pat_literals :: "string list" where
  "pat_literals =
     [bos, eos,
      CHR 0x27 # ''s'', CHR 0x27 # ''t'', CHR 0x27 # ''re'', CHR 0x27 # ''ve'',
      CHR 0x27 # ''m'', CHR 0x27 # ''ll'', CHR 0x27 # ''d'']"

text \<open>
  One match attempt of \<^verbatim>\<open>self.pat\<close> at the start of \<open>s\<close>: the length of the match of
  the first alternative that matches, if any. The text has been lower-cased, so the
  case-insensitive literals match exactly.
\<close>

definition pat_match :: "string \<Rightarrow> nat option" where
  "pat_match s =
     (case find (\<lambda>l. prefix l s) pat_literals of
        Some l \<Rightarrow> Some (length l)
      | None \<Rightarrow>
         (case s of
            [] \<Rightarrow> None
          | c # cs \<Rightarrow>
              if is_letter c then Some (length (takeWhile is_letter s))
              else if is_number c then Some 1
              else if is_other c then Some (length (takeWhile is_other s))
              else None))"

text \<open>\<^verbatim>\<open>regex.findall(self.pat, s)\<close>: scan left to right, skipping a character where
  nothing matches.\<close>

function findall :: "string \<Rightarrow> string list" where
  "findall s =
     (if s = [] then []
      else case pat_match s of
             Some n \<Rightarrow> take n s # findall (drop n s)
           | None \<Rightarrow> findall (tl s))"
  by pat_completeness auto

lemma find_pat_literals_nonempty:
  "find P pat_literals = Some l \<Longrightarrow> l \<noteq> []"
  by (auto simp: pat_literals_def bos_def eos_def split: if_splits)

lemma pat_match_pos: "pat_match s = Some n \<Longrightarrow> 0 < n"
  by (cases s)
     (auto simp: pat_match_def split: option.splits if_splits
           dest: find_pat_literals_nonempty)

lemma pat_match_le: "pat_match s = Some n \<Longrightarrow> n \<le> length s"
proof (cases "find (\<lambda>l. prefix l s) pat_literals")
  case None
  assume "pat_match s = Some n"
  with None show ?thesis
    by (cases s)
       (auto simp: pat_match_def split: if_splits
             intro: order_trans [OF length_takeWhile_le])
next
  case (Some l)
  assume "pat_match s = Some n"
  with Some have n: "n = length l" by (simp add: pat_match_def)
  from Some have "prefix l s" by (auto simp: find_Some_iff)
  with n show ?thesis by (simp add: prefix_length_le)
qed

termination findall
  by (relation "measure length") (auto dest: pat_match_pos)

declare findall.simps [simp del]

subsection \<open>Tokenizer state\<close>

datatype py_error = IndexError | KeyError string | ValueError | ShapeError

text \<open>
  A value stored in \<^verbatim>\<open>self._cache\<close> or returned by \<^verbatim>\<open>bpe\<close> is a Python
  \<^verbatim>\<open>str\<close> (the two entries written by \<^verbatim>\<open>__init__\<close>) or a list of
  \<^verbatim>\<open>str\<close> (every entry written by \<^verbatim>\<open>bpe\<close>).
\<close>

datatype pyval = PStr string | PList "string list"

text \<open>Iterating a value, as \<^verbatim>\<open>for ti in self.bpe(t)\<close> does: a \<^verbatim>\<open>str\<close>
  yields its characters, a list its elements.\<close>

fun iterate :: "pyval \<Rightarrow> string list" where
  "iterate (PStr s) = map (\<lambda>c. [c]) s"
| "iterate (PList xs) = xs"

type_synonym bigram = "string \<times> string"

record CLIPTokenizer =
  bpe_ranks :: "bigram \<rightharpoonup> int"
  vocab :: "string \<rightharpoonup> int"
  cache :: "string \<rightharpoonup> pyval"

text \<open>\<^verbatim>\<open>CLIPTokenizer.__init__\<close>\<close>

definition init :: "(bigram \<rightharpoonup> int) \<Rightarrow> (string \<rightharpoonup> int) \<Rightarrow> CLIPTokenizer" where
  "init ranks voc =
     \<lparr>bpe_ranks = ranks, vocab = voc,
      cache = [bos \<mapsto> PStr bos, eos \<mapsto> PStr eos]\<rparr>"

definition vocab_lookup :: "CLIPTokenizer \<Rightarrow> string \<Rightarrow> py_error + int" where
  "vocab_lookup tk t = (case vocab tk t of None \<Rightarrow> Inl (KeyError t) | Some i \<Rightarrow> Inr i)"

definition bos_token :: "CLIPTokenizer \<Rightarrow> py_error + int" where
  "bos_token tk = vocab_lookup tk bos"

definition eos_token :: "CLIPTokenizer \<Rightarrow> py_error + int" where
  "eos_token tk = vocab_lookup tk eos"

subsection \<open>The merge loop of \<^verbatim>\<open>bpe\<close>\<close>

text \<open>
  The key of \<^verbatim>\<open>min\<close>: \<^verbatim>\<open>self.bpe_ranks.get(pair, float("inf"))\<close>, with
  \<open>None\<close> for infinity.
\<close>

definition rank_key :: "(bigram \<rightharpoonup> int) \<Rightarrow> bigram \<Rightarrow> int option" where
  "rank_key ranks pair = ranks pair"

fun key_less :: "int option \<Rightarrow> int option \<Rightarrow> bool" where
  "key_less (Some x) (Some y) = (x < y)"
| "key_less (Some x) None = True"
| "key_less None _ = False"

text \<open>
  Python's \<^verbatim>\<open>min(iterable, key=...)\<close> on a non-empty iterable: the first element
  stays the candidate until a later one has a strictly smaller key.
\<close>

fun py_min :: "('a \<Rightarrow> int option) \<Rightarrow> 'a list \<Rightarrow> 'a" where
  "py_min key (x # xs) =
     foldl (\<lambda>best y. if key_less (key y) (key best) then y else best) x xs"

text \<open>
  \<^verbatim>\<open>set(zip(unigrams, unigrams[1:]))\<close> is iterated in an order that Python does not
  specify. The model takes it as a parameter \<open>ord\<close>: for the list of pairs the set is
  built from, \<open>ord pairs p\<close> is the position of \<open>p\<close> in the iteration.
\<close>

type_synonym set_order = "bigram list \<Rightarrow> bigram \<Rightarrow> nat"

definition set_iter :: "set_order \<Rightarrow> bigram list \<Rightarrow> bigram list" where
  "set_iter ord pairs = sort_key (ord pairs) (remdups pairs)"

definition bigrams :: "string list \<Rightarrow> bigram list" where
  "bigrams unigrams = zip unigrams (tl unigrams)"

text \<open>The \<^verbatim>\<open>for a, b in zip(unigrams, unigrams[1:])\<close> pass with its \<^verbatim>\<open>skip\<close>
  flag; the state is \<^verbatim>\<open>(new_unigrams, skip)\<close>.\<close>

definition merge_step :: "bigram \<Rightarrow> string list \<times> bool \<Rightarrow> bigram \<Rightarrow> string list \<times> bool" where
  "merge_step bigram st ab =
     (case st of (new_unigrams, skip) \<Rightarrow>
        if skip then (new_unigrams, False)
        else if ab = bigram then (new_unigrams @ [fst ab @ snd ab], True)
        else (new_unigrams @ [fst ab], False))"

text \<open>After the loop: \<^verbatim>\<open>if not skip: new_unigrams.append(b)\<close>, where \<^verbatim>\<open>b\<close> is
  still bound to the second component of the last pair.\<close>

definition merge_finish :: "string list \<times> bool \<Rightarrow> string \<Rightarrow> string list" where
  "merge_finish st b = (if \<not> snd st then fst st @ [b] else fst st)"

definition merge_pass :: "bigram \<Rightarrow> string list \<Rightarrow> string list" where
  "merge_pass bigram unigrams =
     merge_finish (foldl (merge_step bigram) ([], False) (bigrams unigrams))
                  (snd (last (bigrams unigrams)))"

text \<open>Merging as the specification words it: left to right, non-overlapping.\<close>

fun merge_occurrences :: "bigram \<Rightarrow> string list \<Rightarrow> string list" where
  "merge_occurrences bigram (a # b # rest) =
     (if (a, b) = bigram then (a @ b) # merge_occurrences bigram rest
      else a # merge_occurrences bigram (b # rest))"
| "merge_occurrences bigram us = us"

function bpe_loop :: "set_order \<Rightarrow> (bigram \<rightharpoonup> int) \<Rightarrow> string list \<Rightarrow> string list" where
  "bpe_loop ord ranks unigrams =
     (if bigrams unigrams = [] then unigrams
      else let bigram = py_min (rank_key ranks) (set_iter ord (bigrams unigrams))
           in if ranks bigram = None then unigrams
              else bpe_loop ord ranks (merge_pass bigram unigrams))"
  by pat_completeness auto

lemma merge_step_skip: "merge_step bg (acc, True) p = (acc, False)"
  by (simp add: merge_step_def)

lemma merge_step_hit: "merge_step bg (acc, False) (a, b) =
    (if (a, b) = bg then (acc @ [a @ b], True) else (acc @ [a], False))"
  by (auto simp: merge_step_def)

lemma foldl_merge_step:
  "us \<noteq> [] \<Longrightarrow>
   merge_finish (foldl (merge_step bg) (acc, sk) (zip (a # us) us)) (last us)
   = acc @ (if sk then merge_occurrences bg us else merge_occurrences bg (a # us))"
proof (induction us arbitrary: a acc sk)
  case Nil
  then show ?case by simp
next
  case (Cons b us)
  show ?case
  proof (cases "us = []")
    case True
    then show ?thesis
      by (cases sk) (simp_all add: merge_step_skip merge_step_hit merge_finish_def)
  next
    case False
    note IH = Cons.IH [OF False]
    from False have l: "last (b # us) = last us" by simp
    from False obtain c rest where us: "us = c # rest" by (cases us) auto
    show ?thesis
    proof (cases sk)
      case True
      then show ?thesis
        using IH [of acc False b] False by (simp add: merge_step_skip)
    next
      case nsk: False
      show ?thesis
      proof (cases "(a, b) = bg")
        case True
        have "merge_step bg (acc, sk) (a, b) = (acc @ [a @ b], True)"
          using nsk True by (auto simp: merge_step_def)
        then show ?thesis
          using IH [of "acc @ [a @ b]" True b] \<open>us \<noteq> []\<close> nsk
          by (simp add: True [symmetric])
      next
        case False
        with nsk show ?thesis
          using IH [of "acc @ [a]" False b] \<open>us \<noteq> []\<close> by (simp add: merge_step_hit)
      qed
    qed
  qed
qed

lemma last_bigrams: "us \<noteq> [] \<Longrightarrow> snd (last (zip (a # us) us)) = last us"
  by (induction us arbitrary: a) auto

lemma merge_pass_eq:
  "2 \<le> length us \<Longrightarrow> merge_pass bg us = merge_occurrences bg us"
proof -
  assume "2 \<le> length us"
  then obtain a rest where us: "us = a # rest" and ne: "rest \<noteq> []"
    by (cases us) (auto simp: Suc_le_eq)
  show ?thesis
    using foldl_merge_step [OF ne, of bg "[]" False a] last_bigrams [OF ne, of a]
    unfolding merge_pass_def bigrams_def us by simp
qed

lemma length_merge_occurrences_le:
  "length (merge_occurrences bg us) \<le> length us"
  by (induction bg us rule: merge_occurrences.induct) auto

lemma length_merge_occurrences_less:
  "bg \<in> set (bigrams us) \<Longrightarrow> length (merge_occurrences bg us) < length us"
proof (induction bg us rule: merge_occurrences.induct)
  case (1 bigram a b rest)
  then show ?case
    using length_merge_occurrences_le [of bigram rest]
    by (auto simp: bigrams_def)
qed (auto simp: bigrams_def)

lemma py_min_foldl_in:
  "foldl (\<lambda>best y. if key_less (key y) (key best) then y else best) x xs \<in> set (x # xs)"
  by (induction xs arbitrary: x) (auto split: if_splits)

lemma py_min_in: "xs \<noteq> [] \<Longrightarrow> py_min key xs \<in> set xs"
  using py_min_foldl_in [of key "hd xs" "tl xs"] by (cases xs) auto

lemma set_set_iter: "set (set_iter ord ps) = set ps"
  by (simp add: set_iter_def)

lemma set_iter_Nil: "set_iter ord ps = [] \<longleftrightarrow> ps = []"
  using set_set_iter [of ord ps] by (metis set_empty)

lemma bigrams_Nil: "bigrams us = [] \<longleftrightarrow> length us < 2"
  by (cases us; cases "tl us") (auto simp: bigrams_def)

termination bpe_loop
proof (relation "measure (\<lambda>(ord, ranks, us). length us)")
  show "wf (measure (\<lambda>(ord, ranks, us). length us))" by simp
next
  fix ord :: set_order and ranks :: "bigram \<rightharpoonup> int" and unigrams :: "string list" and x
  assume ne: "bigrams unigrams \<noteq> []"
    and x: "x = py_min (rank_key ranks) (set_iter ord (bigrams unigrams))"
  from ne have "set_iter ord (bigrams unigrams) \<noteq> []" by (simp add: set_iter_Nil)
  then have "x \<in> set (bigrams unigrams)"
    using py_min_in [of "set_iter ord (bigrams unigrams)" "rank_key ranks"] x
    by (simp add: set_set_iter)
  moreover from ne have "2 \<le> length unigrams" by (simp add: bigrams_Nil)
  ultimately show "((ord, ranks, merge_pass x unigrams), (ord, ranks, unigrams))
      \<in> measure (\<lambda>(ord, ranks, us). length us)"
    by (simp add: merge_pass_eq length_merge_occurrences_less)
qed

declare bpe_loop.simps [simp del]

subsection \<open>\<^verbatim>\<open>bpe\<close> and \<^verbatim>\<open>tokenize\<close>\<close>

text \<open>\<^verbatim>\<open>list(text[:-1]) + [text[-1] + "</w>"]\<close>; \<^verbatim>\<open>text[-1]\<close> raises on the
  empty string.\<close>

definition unigrams_of :: "string \<Rightarrow> py_error + string list" where
  "unigrams_of text =
     (if text = [] then Inl IndexError
      else Inr (map (\<lambda>c. [c]) (butlast text) @ [[last text] @ ''</w>'']))"

definition bpe :: "set_order \<Rightarrow> CLIPTokenizer \<Rightarrow> string \<Rightarrow> (py_error + pyval) \<times> CLIPTokenizer" where
  "bpe ord tk text =
     (case cache tk text of
        Some v \<Rightarrow> (Inr v, tk)
      | None \<Rightarrow>
         (case unigrams_of text of
            Inl e \<Rightarrow> (Inl e, tk)
          | Inr unigrams \<Rightarrow>
              if bigrams unigrams = [] then (Inr (PList unigrams), tk)
              else let unigrams' = bpe_loop ord (bpe_ranks tk) unigrams
                   in (Inr (PList unigrams'),
                       tk\<lparr>cache := (cache tk)(text \<mapsto> PList unigrams')\<rparr>)))"

text \<open>\<^verbatim>\<open>[ti for t in tokens for ti in self.bpe(t)]\<close>: the cache is threaded through
  the calls, and what was written stays written when a later call raises.\<close>

fun bpe_all :: "set_order \<Rightarrow> CLIPTokenizer \<Rightarrow> string list \<Rightarrow> (py_error + string list) \<times> CLIPTokenizer" where
  "bpe_all ord tk [] = (Inr [], tk)"
| "bpe_all ord tk (t # ts) =
     (case bpe ord tk t of
        (Inl e, tk') \<Rightarrow> (Inl e, tk')
      | (Inr v, tk') \<Rightarrow>
         (case bpe_all ord tk' ts of
            (Inl e, tk'') \<Rightarrow> (Inl e, tk'')
          | (Inr rest, tk'') \<Rightarrow> (Inr (iterate v @ rest), tk'')))"

text \<open>\<^verbatim>\<open>[self.vocab[t] for t in bpe_tokens]\<close>\<close>

fun lookup_all :: "CLIPTokenizer \<Rightarrow> string list \<Rightarrow> py_error + int list" where
  "lookup_all tk [] = Inr []"
| "lookup_all tk (t # ts) =
     (case vocab_lookup tk t of
        Inl e \<Rightarrow> Inl e
      | Inr i \<Rightarrow> (case lookup_all tk ts of Inl e \<Rightarrow> Inl e | Inr ids \<Rightarrow> Inr (i # ids)))"

definition add_bos :: "CLIPTokenizer \<Rightarrow> bool \<Rightarrow> int list \<Rightarrow> py_error + int list" where
  "add_bos tk prepend_bos tokens =
     (if prepend_bos
      then (case bos_token tk of Inl e \<Rightarrow> Inl e | Inr b \<Rightarrow> Inr ([b] @ tokens))
      else Inr tokens)"

definition add_eos :: "CLIPTokenizer \<Rightarrow> bool \<Rightarrow> int list \<Rightarrow> py_error + int list" where
  "add_eos tk append_eos tokens =
     (if append_eos
      then (case eos_token tk of Inl e \<Rightarrow> Inl e | Inr b \<Rightarrow> Inr (tokens @ [b]))
      else Inr tokens)"

text \<open>\<^verbatim>\<open>tokenize\<close> on one string (the list case maps this over the list).\<close>

definition tokenize :: "set_order \<Rightarrow> CLIPTokenizer \<Rightarrow> string \<Rightarrow> bool \<Rightarrow> bool \<Rightarrow> (py_error + int list) \<times> CLIPTokenizer" where
  "tokenize ord tk text prepend_bos append_eos =
     (let clean_text = sub_spaces (lower text);
          tokens = findall clean_text
      in case bpe_all ord tk tokens of
           (Inl e, tk') \<Rightarrow> (Inl e, tk')
         | (Inr bpe_tokens, tk') \<Rightarrow>
            (case lookup_all tk' bpe_tokens of
               Inl e \<Rightarrow> (Inl e, tk')
             | Inr ids \<Rightarrow>
                (case add_bos tk' prepend_bos ids of
                   Inl e \<Rightarrow> (Inl e, tk')
                 | Inr ids' \<Rightarrow> (add_eos tk' append_eos ids', tk'))))"

subsection \<open>Example tokenizers\<close>

definition example_vocab :: "string \<rightharpoonup> int" where
  "example_vocab =
     map_of [(''a'', 0), (''b'', 1), (''ab'', 2), (''a</w>'', 3), (''b</w>'', 4),
             (''ab</w>'', 5), (''<|startoftext|>'', 6), (''<|endoftext|>'', 7)]"

definition example_ranks :: "bigram \<rightharpoonup> int" where
  "example_ranks = map_of [((''a'', ''b</w>''), 0)]"

text \<open>Merge tables for \<^verbatim>\<open>abc\<close>, where the second bigram has the lower rank, and
  for a run of one repeated letter.\<close>

definition ordered_ranks :: "bigram \<rightharpoonup> int" where
  "ordered_ranks = map_of [((''b'', ''c</w>''), 0), ((''a'', ''b''), 1)]"

definition repeat_ranks :: "bigram \<rightharpoonup> int" where
  "repeat_ranks = map_of [((''a'', ''a''), 0)]"

text \<open>A vocabulary that, like the CLIP vocabulary, also has the single characters of
  the end-of-text marker as entries.\<close>

definition char_vocab :: "string \<rightharpoonup> int" where
  "char_vocab =
     map_of [(''<|startoftext|>'', 100), (''<|endoftext|>'', 101),
             (''<'', 1), (''|'', 2), (''e'', 3), (''n'', 4), (''d'', 5), (''o'', 6),
             (''f'', 7), (''t'', 8), (''x'', 9), (''>'', 10)]"

subsection \<open>The merge loop as the specification words it\<close>

text \<open>
  A pair is a lowest-ranked bigram of a unigram sequence when it occurs there as an
  adjacent pair and every adjacent pair that has a rank has a rank at least as large;
  a pair without a rank is never preferred to a ranked one. \<open>merges_to ranks us res\<close>
  holds when \<open>res\<close> is reached from \<open>us\<close> by repeatedly choosing a lowest-ranked
  bigram, stopping when it has no rank and otherwise merging its non-overlapping
  occurrences from left to right.
\<close>

definition lowest_rank :: "(bigram \<rightharpoonup> int) \<Rightarrow> string list \<Rightarrow> bigram \<Rightarrow> bool" where
  "lowest_rank ranks us b \<longleftrightarrow>
     b \<in> set (bigrams us)
     \<and> (\<forall>p \<in> set (bigrams us). \<forall>rp. ranks p = Some rp \<longrightarrow>
            (\<exists>rb. ranks b = Some rb \<and> rb \<le> rp))"

inductive merges_to :: "(bigram \<rightharpoonup> int) \<Rightarrow> string list \<Rightarrow> string list \<Rightarrow> bool"
  for ranks :: "bigram \<rightharpoonup> int" where
  no_bigram: "bigrams us = [] \<Longrightarrow> merges_to ranks us us"
| unranked: "lowest_rank ranks us b \<Longrightarrow> ranks b = None \<Longrightarrow> merges_to ranks us us"
| merge: "lowest_rank ranks us b \<Longrightarrow> ranks b = Some r
          \<Longrightarrow> merges_to ranks (merge_occurrences b us) res \<Longrightarrow> merges_to ranks us res"

definition const_order :: set_order where
  "const_order pairs p = 0"

text \<open>
  A later cache extends an earlier one when it keeps every entry and has new entries
  only for strings with at least one bigram.
\<close>

definition cache_ext :: "(string \<rightharpoonup> pyval) \<Rightarrow> (string \<rightharpoonup> pyval) \<Rightarrow> bool" where
  "cache_ext c c' \<longleftrightarrow>
     (\<forall>t. c' t = c t \<or> (c t = None \<and> (\<exists>us. unigrams_of t = Inr us \<and> bigrams us \<noteq> [])))"

section \<open>The text encoder of \<^verbatim>\<open>clip/model.py\<close>\<close>

text \<open>
  Only the shapes and the indexing of \<^verbatim>\<open>CLIPTextModel\<close> are modelled. An array of
  shape \<open>(B, N)\<close> of token ids carries its shape; an array of shape \<open>(B, N, H)\<close> is a
  list of \<open>B\<close> sequences of \<open>N\<close> vectors. The element type \<open>'a\<close> and its addition
  stand for the floating-point numbers of the array library, of which nothing is
  assumed. The encoder layers, the final layer norm and the causal mask come from the
  array library and are fields of the model.
\<close>

record token_ids =
  n_rows :: nat
  n_cols :: nat
  rows :: "int list list"

definition wf_ids :: "token_ids \<Rightarrow> bool" where
  "wf_ids x \<longleftrightarrow> length (rows x) = n_rows x \<and> list_all (\<lambda>r. length r = n_cols x) (rows x)"

record ('a, 'm) CLIPTextModel =
  token_embedding :: "int \<Rightarrow> 'a list"
  position_embedding :: "'a list list"
  layers :: "('a list list list \<Rightarrow> 'm \<Rightarrow> 'a list list list) list"
  final_layer_norm :: "'a list list list \<Rightarrow> 'a list list list"
  create_additive_causal_mask :: "nat \<Rightarrow> 'm"

record 'a CLIPTextOutput =
  pooler_output :: "'a list list"
  last_hidden_state :: "'a list list list"

text \<open>\<^verbatim>\<open>config.max_position_embeddings\<close> is the number of rows of the position table.\<close>

definition max_position_embeddings :: "('a, 'm) CLIPTextModel \<Rightarrow> nat" where
  "max_position_embeddings m = length (position_embedding m)"

text \<open>\<^verbatim>\<open>self.position_embedding[:N]\<close>: a slice stops at the end of the table.\<close>

definition position_slice :: "('a, 'm) CLIPTextModel \<Rightarrow> nat \<Rightarrow> 'a list list" where
  "position_slice m N = take N (position_embedding m)"

definition add_vec :: "'a::plus list \<Rightarrow> 'a list \<Rightarrow> 'a list" where
  "add_vec u v = map2 (+) u v"

text \<open>
  \<^verbatim>\<open>embeddings += p\<close> for \<open>embeddings\<close> of shape \<open>(B, N, H)\<close> and \<open>p\<close> of shape
  \<open>(M, H)\<close>: the array library broadcasts the two position axes when they are equal or
  one of them is 1, and raises otherwise.
\<close>

definition broadcast_add :: "nat \<Rightarrow> 'a::plus list list list \<Rightarrow> 'a list list \<Rightarrow> py_error + 'a list list list" where
  "broadcast_add N embeddings p =
     (if length p = N then Inr (map (\<lambda>seq. map2 add_vec seq p) embeddings)
      else if length p = 1 then Inr (map (\<lambda>seq. map (\<lambda>v. add_vec v (hd p)) seq) embeddings)
      else if N = 1 then Inr (map (\<lambda>seq. map (\<lambda>q. add_vec (hd seq) q) p) embeddings)
      else Inl ShapeError)"

text \<open>\<^verbatim>\<open>CLIPTextModel._embed\<close>\<close>

definition embed :: "('a::plus, 'm) CLIPTextModel \<Rightarrow> token_ids \<Rightarrow> py_error + 'a list list list" where
  "embed m x =
     (let N = n_cols x;
          embeddings = map (map (token_embedding m)) (rows x)
      in broadcast_add N embeddings (position_slice m N))"

text \<open>\<^verbatim>\<open>mx.argmax\<close> along the last axis: the first position of the largest entry of a
  row; the array library raises on an array without elements.\<close>

fun argmax_from :: "nat \<Rightarrow> int \<Rightarrow> nat \<Rightarrow> int list \<Rightarrow> nat" where
  "argmax_from best_i best_v i [] = best_i"
| "argmax_from best_i best_v i (v # vs) =
     (if best_v < v then argmax_from i v (Suc i) vs
      else argmax_from best_i best_v (Suc i) vs)"

definition argmax_row :: "int list \<Rightarrow> nat" where
  "argmax_row r = argmax_from 0 (hd r) 1 (tl r)"

definition argmax :: "token_ids \<Rightarrow> py_error + nat list" where
  "argmax x =
     (if n_rows x = 0 \<or> n_cols x = 0 then Inl ValueError
      else Inr (map argmax_row (rows x)))"

text \<open>\<^verbatim>\<open>CLIPTextModel.__call__\<close>\<close>

definition CLIPTextModel_call :: "('a::plus, 'm) CLIPTextModel \<Rightarrow> token_ids \<Rightarrow> py_error + 'a CLIPTextOutput" where
  "CLIPTextModel_call m x =
     (let N = n_cols x
      in case argmax x of
           Inl e \<Rightarrow> Inl e
         | Inr eot_tokens \<Rightarrow>
            (case embed m x of
               Inl e \<Rightarrow> Inl e
             | Inr x0 \<Rightarrow>
                 let mask = create_additive_causal_mask m N;
                     x1 = foldl (\<lambda>x l. l x mask) x0 (layers m);
                     last = final_layer_norm m x1
                 in Inr \<lparr>pooler_output = map2 (\<lambda>seq p. seq ! p) last eot_tokens,
                          last_hidden_state = last\<rparr>))"

text \<open>
  The layers and the layer norm of the array library keep the shape of their input; for
  the pooling only the batch axis matters.
\<close>

definition keeps_batch :: "('a, 'm) CLIPTextModel \<Rightarrow> bool" where
  "keeps_batch m \<longleftrightarrow>
     (\<forall>l \<in> set (layers m). \<forall>h k. length (l h k) = length h)
     \<and> (\<forall>h. length (final_layer_norm m h) = length h)"

text \<open>Example models over the reals with a position table of \<open>M\<close> rows and one
  layer that doubles every entry.\<close>

definition example_text_model :: "nat \<Rightarrow> (real, unit) CLIPTextModel" where
  "example_text_model M =
     \<lparr>token_embedding = (\<lambda>i. [of_int i]),
      position_embedding = map (\<lambda>k. [100 * (1 + of_nat k)]) [0..<M],
      layers = [\<lambda>h mask. map (map (map (\<lambda>v. 2 * v))) h],
      final_layer_norm = (\<lambda>x. x),
      create_additive_causal_mask = (\<lambda>N. ())\<rparr>"

text \<open>The same with a final layer norm that is not the identity: it adds 1 to every
  entry.\<close>

definition normed_text_model :: "nat \<Rightarrow> (real, unit) CLIPTextModel" where
  "normed_text_model M =
     (example_text_model M)\<lparr>final_layer_norm := map (map (map (\<lambda>v. v + 1)))\<rparr>"

definition example_ids :: "int list \<Rightarrow> token_ids" where
  "example_ids r = \<lparr>n_rows = 1, n_cols = length r, rows = [r]\<rparr>"

section \<open>Properties of the tokenizer\<close>

text \<open>
  C1. The pattern yields the marker \<^verbatim>\<open><|endoftext|>\<close> as one coarse token and the
  cache written by \<^verbatim>\<open>__init__\<close> answers \<^verbatim>\<open>bpe\<close> for it, but with a Python
  \<^verbatim>\<open>str\<close>, which \<^verbatim>\<open>tokenize\<close> iterates character by character. The marker
  is therefore not emitted as one sub-token: with a vocabulary holding the characters the
  result is thirteen ids, none of them the id of the marker, and with the example
  vocabulary the look-up of \<^verbatim>\<open><\<close> raises.
\<close>

theorem special_marker_split_into_characters:
  "findall (sub_spaces (lower ''<|endoftext|>'')) = [''<|endoftext|>'']
   \<and> fst (bpe ord (init example_ranks char_vocab) ''<|endoftext|>'') = Inr (PStr ''<|endoftext|>'')
   \<and> fst (tokenize ord (init example_ranks char_vocab) ''<|endoftext|>'' False False)
       = Inr [1, 2, 3, 4, 5, 6, 7, 8, 3, 9, 8, 2, 10]
   \<and> fst (tokenize ord (init example_ranks example_vocab) ''<|endoftext|>'' True True)
       = Inl (KeyError ''<'')"
  by code_simp

text \<open>
  C3. With the vocabulary and the merge table of the specification's example,
  \<^verbatim>\<open>tokenize("ab")\<close> with both markers starts from the unigrams \<^verbatim>\<open>a\<close>,
  \<^verbatim>\<open>b</w>\<close>, merges them into \<^verbatim>\<open>ab</w>\<close> and returns the ids 6, 5, 7,
  whatever the iteration order of sets.
\<close>

theorem tokenize_ab_example:
  "unigrams_of ''ab'' = Inr [''a'', ''b</w>'']
   \<and> merge_pass (''a'', ''b</w>'') [''a'', ''b</w>''] = [''ab</w>'']
   \<and> fst (bpe ord (init example_ranks example_vocab) ''ab'') = Inr (PList [''ab</w>''])
   \<and> fst (tokenize ord (init example_ranks example_vocab) ''ab'' True True) = Inr [6, 5, 7]"
  by code_simp

lemma key_less_trans_le:
  "\<not> key_less b a \<Longrightarrow> \<not> key_less c b \<Longrightarrow> \<not> key_less c a"
  by (cases a; cases b; cases c) auto

lemma py_min_foldl_least:
  "\<not> key_less (key x) (key (foldl (\<lambda>best y. if key_less (key y) (key best) then y else best) x xs))
   \<and> (\<forall>y \<in> set xs.
        \<not> key_less (key y) (key (foldl (\<lambda>best y. if key_less (key y) (key best) then y else best) x xs)))"
proof (induction xs arbitrary: x)
  case Nil
  show ?case by (cases "key x") auto
next
  case (Cons z zs)
  let ?f = "\<lambda>best y. if key_less (key y) (key best) then y else best"
  show ?case
  proof (cases "key_less (key z) (key x)")
    case True
    then have nxz: "\<not> key_less (key x) (key z)"
      by (cases "key x"; cases "key z") auto
    from Cons.IH [of z] have r: "\<not> key_less (key z) (key (foldl ?f z zs))"
      and rest: "\<forall>y \<in> set zs. \<not> key_less (key y) (key (foldl ?f z zs))" by simp_all
    from key_less_trans_le [OF r nxz] r rest True show ?thesis by simp
  next
    case False
    from Cons.IH [of x] have r: "\<not> key_less (key x) (key (foldl ?f x zs))"
      and rest: "\<forall>y \<in> set zs. \<not> key_less (key y) (key (foldl ?f x zs))" by simp_all
    from key_less_trans_le [OF r False] r rest False show ?thesis by simp
  qed
qed

lemma py_min_least:
  "y \<in> set xs \<Longrightarrow> \<not> key_less (key y) (key (py_min key xs))"
proof (cases xs)
  case Nil
  assume "y \<in> set xs"
  with Nil show ?thesis by simp
next
  case (Cons x xs')
  assume "y \<in> set xs"
  with Cons py_min_foldl_least [of key x xs'] show ?thesis by auto
qed

text \<open>The comparison of keys in \<^verbatim>\<open>min\<close> against the order of the ranks.\<close>

lemma not_key_less_iff:
  "\<not> key_less (rank_key ranks p) (rank_key ranks b)
   \<longleftrightarrow> (\<forall>rp. ranks p = Some rp \<longrightarrow> (\<exists>rb. ranks b = Some rb \<and> rb \<le> rp))"
  by (cases "ranks p"; cases "ranks b") (auto simp: rank_key_def)

lemma py_min_lowest_rank:
  assumes "bigrams us \<noteq> []"
  shows "lowest_rank ranks us (py_min (rank_key ranks) (set_iter ord (bigrams us)))"
proof -
  let ?b = "py_min (rank_key ranks) (set_iter ord (bigrams us))"
  from assms have ne: "set_iter ord (bigrams us) \<noteq> []" by (simp add: set_iter_Nil)
  have "?b \<in> set (bigrams us)"
    using py_min_in [OF ne, of "rank_key ranks"] by (simp add: set_set_iter)
  moreover have "\<forall>rp. ranks p = Some rp \<longrightarrow> (\<exists>rb. ranks ?b = Some rb \<and> rb \<le> rp)"
    if "p \<in> set (bigrams us)" for p
  proof -
    from that have "p \<in> set (set_iter ord (bigrams us))" by (simp add: set_set_iter)
    from py_min_least [OF this, of "rank_key ranks"] show ?thesis
      by (simp only: not_key_less_iff)
  qed
  ultimately show ?thesis unfolding lowest_rank_def by blast
qed

lemma bpe_loop_merges_to: "merges_to ranks us (bpe_loop ord ranks us)"
proof (induction ord ranks us rule: bpe_loop.induct)
  case (1 ord ranks unigrams)
  show ?case
  proof (cases "bigrams unigrams = []")
    case True
    then show ?thesis by (simp add: bpe_loop.simps [of ord ranks unigrams] no_bigram)
  next
    case ne: False
    define b where "b = py_min (rank_key ranks) (set_iter ord (bigrams unigrams))"
    have low: "lowest_rank ranks unigrams b"
      unfolding b_def by (rule py_min_lowest_rank [OF ne])
    show ?thesis
    proof (cases "ranks b")
      case None
      then have "bpe_loop ord ranks unigrams = unigrams"
        using ne by (simp add: bpe_loop.simps [of ord ranks unigrams] b_def)
      with unranked [OF low None] show ?thesis by simp
    next
      case (Some r)
      from ne have len: "2 \<le> length unigrams" by (simp add: bigrams_Nil)
      have eq: "bpe_loop ord ranks unigrams = bpe_loop ord ranks (merge_pass b unigrams)"
        using ne Some by (simp add: bpe_loop.simps [of ord ranks unigrams] b_def Let_def)
      have "merges_to ranks (merge_pass b unigrams) (bpe_loop ord ranks (merge_pass b unigrams))"
        using "1.IH" [OF ne b_def] Some by simp
      then have "merges_to ranks (merge_occurrences b unigrams) (bpe_loop ord ranks unigrams)"
        by (simp add: eq merge_pass_eq [OF len])
      with merge [OF low Some] show ?thesis by simp
    qed
  qed
qed

lemma lowest_rank_in: "lowest_rank ranks us b \<Longrightarrow> bigrams us \<noteq> []"
  by (auto simp: lowest_rank_def)

lemma lowest_rank_None:
  assumes "lowest_rank ranks us b" and "lowest_rank ranks us b'" and "ranks b = None"
  shows "ranks b' = None"
proof (cases "ranks b'")
  case None
  then show ?thesis .
next
  case (Some r')
  from assms(2) have "b' \<in> set (bigrams us)" by (simp add: lowest_rank_def)
  with assms(1) Some have "\<exists>rb. ranks b = Some rb \<and> rb \<le> r'"
    unfolding lowest_rank_def by blast
  with assms(3) show ?thesis by simp
qed

lemma lowest_rank_same:
  assumes inj: "inj_on ranks (dom ranks)"
    and "lowest_rank ranks us b" and "lowest_rank ranks us b'"
    and "ranks b = Some r" and "ranks b' = Some r'"
  shows "b = b'"
proof -
  from assms(2,3) have "b \<in> set (bigrams us)" and "b' \<in> set (bigrams us)"
    by (simp_all add: lowest_rank_def)
  with assms(2,3,4,5) have "r \<le> r'" and "r' \<le> r"
    unfolding lowest_rank_def by fastforce+
  then have "r = r'" by simp
  with assms(4,5) have "ranks b = ranks b'" by simp
  moreover from assms(4,5) have "b \<in> dom ranks" and "b' \<in> dom ranks" by auto
  ultimately show ?thesis using inj by (auto dest: inj_onD)
qed

text \<open>When no two pairs share a rank, as with ranks taken from the positions in a
  merge list, the relation determines the result.\<close>

lemma merges_to_unique:
  assumes inj: "inj_on ranks (dom ranks)"
  shows "merges_to ranks us r1 \<Longrightarrow> merges_to ranks us r2 \<Longrightarrow> r1 = r2"
proof (induction arbitrary: r2 rule: merges_to.induct)
  case (no_bigram us)
  from no_bigram.prems no_bigram.hyps show ?case
    by (cases rule: merges_to.cases) (auto dest: lowest_rank_in)
next
  case (unranked us b)
  from unranked.prems show ?case
  proof (cases rule: merges_to.cases)
    case (merge b' r')
    with lowest_rank_None [OF unranked.hyps(1) merge(1) unranked.hyps(2)]
    show ?thesis by simp
  qed simp_all
next
  case (merge us b r res)
  from merge.prems show ?case
  proof (cases rule: merges_to.cases)
    case no_bigram
    with merge.hyps(1) show ?thesis by (auto dest: lowest_rank_in)
  next
    case (unranked b')
    with lowest_rank_None [OF unranked(2) merge.hyps(1) unranked(3)] merge.hyps(2)
    show ?thesis by simp
  next
    case m2: (merge b' r')
    from lowest_rank_same [OF inj merge.hyps(1) m2(1) merge.hyps(2) m2(2)]
    have "b = b'" .
    with m2(3) merge.IH show ?thesis by simp
  qed
qed

lemma length_unigrams_of: "unigrams_of text = Inr us \<Longrightarrow> length us = length text"
  by (auto simp: unigrams_of_def split: if_splits)

text \<open>
  C2. For a non-empty coarse token that is not in the cache, \<^verbatim>\<open>bpe\<close> returns a
  list that the initial unigrams merge to in the sense of the specification: each round
  selects an adjacent pair of lowest rank, stops when that pair has no rank, and
  otherwise merges every non-overlapping occurrence of the pair from left to right.
\<close>

theorem bpe_merge_loop_spec:
  assumes "text \<noteq> []" and "cache tk text = None"
  shows "\<exists>us res. unigrams_of text = Inr us
           \<and> fst (bpe ord tk text) = Inr (PList res)
           \<and> merges_to (bpe_ranks tk) us res"
proof -
  from assms(1) obtain us where us: "unigrams_of text = Inr us"
    by (simp add: unigrams_of_def)
  show ?thesis
  proof (cases "bigrams us = []")
    case True
    with us assms(2) have "fst (bpe ord tk text) = Inr (PList us)"
      by (simp add: bpe_def)
    with us no_bigram [OF True, of "bpe_ranks tk"] show ?thesis by blast
  next
    case False
    with us assms(2) have "fst (bpe ord tk text) = Inr (PList (bpe_loop ord (bpe_ranks tk) us))"
      by (simp add: bpe_def Let_def)
    with us bpe_loop_merges_to [of "bpe_ranks tk" us ord] show ?thesis by blast
  qed
qed

theorem bpe_merge_loop_spec_witness:
  "fst (bpe const_order (init ordered_ranks example_vocab) ''abc'')
     = Inr (PList [''a'', ''bc</w>''])
   \<and> merges_to ordered_ranks [''a'', ''b'', ''c</w>''] [''a'', ''bc</w>'']
   \<and> \<not> merges_to ordered_ranks [''a'', ''b'', ''c</w>''] [''ab'', ''c</w>'']
   \<and> merges_to repeat_ranks [''a'', ''a'', ''a'', ''a'', ''a</w>''] [''aa'', ''aa'', ''a</w>'']
   \<and> merges_to example_ranks [''a'', ''b</w>''] [''ab</w>'']"
proof -
  have run: "merges_to ranks us res"
    if c: "cache (init ranks example_vocab) w = None" and t: "w \<noteq> []"
      and u: "unigrams_of w = Inr us"
      and b: "fst (bpe const_order (init ranks example_vocab) w) = Inr (PList res)"
    for ranks w us res
  proof -
    from bpe_merge_loop_spec [OF t c, of const_order]
    obtain us' res' where "unigrams_of w = Inr us'"
      and "fst (bpe const_order (init ranks example_vocab) w) = Inr (PList res')"
      and m: "merges_to (bpe_ranks (init ranks example_vocab)) us' res'"
      by auto
    with u b have "us' = us" and "res' = res" by simp_all
    with m show ?thesis by (simp add: init_def)
  qed
  have c: "cache (init ranks example_vocab) w = None"
    if "w \<noteq> bos" and "w \<noteq> eos" for ranks w
    using that by (simp add: init_def)
  have b1: "fst (bpe const_order (init ordered_ranks example_vocab) ''abc'')
      = Inr (PList [''a'', ''bc</w>''])"
    by code_simp
  have u1: "unigrams_of ''abc'' = Inr [''a'', ''b'', ''c</w>'']" by code_simp
  have m1: "merges_to ordered_ranks [''a'', ''b'', ''c</w>''] [''a'', ''bc</w>'']"
    by (rule run [OF c _ u1 b1]) (simp_all add: bos_def eos_def)
  have inj: "inj_on ordered_ranks (dom ordered_ranks)"
    by (auto simp: inj_on_def ordered_ranks_def dom_def split: if_splits)
  have n1: "\<not> merges_to ordered_ranks [''a'', ''b'', ''c</w>''] [''ab'', ''c</w>'']"
    using merges_to_unique [OF inj m1] by auto
  have b2: "fst (bpe const_order (init repeat_ranks example_vocab) ''aaaaa'')
      = Inr (PList [''aa'', ''aa'', ''a</w>''])"
    by code_simp
  have u2: "unigrams_of ''aaaaa'' = Inr [''a'', ''a'', ''a'', ''a'', ''a</w>'']" by code_simp
  have m2: "merges_to repeat_ranks [''a'', ''a'', ''a'', ''a'', ''a</w>''] [''aa'', ''aa'', ''a</w>'']"
    by (rule run [OF c _ u2 b2]) (simp_all add: bos_def eos_def)
  have b3: "fst (bpe const_order (init example_ranks example_vocab) ''ab'') = Inr (PList [''ab</w>''])"
    by code_simp
  have u3: "unigrams_of ''ab'' = Inr [''a'', ''b</w>'']" by code_simp
  have m3: "merges_to example_ranks [''a'', ''b</w>''] [''ab</w>'']"
    by (rule run [OF c _ u3 b3]) (simp_all add: bos_def eos_def)
  from b1 m1 n1 m2 m3 show ?thesis by simp
qed

lemma findall_nonempty: "t \<in> set (findall s) \<Longrightarrow> t \<noteq> []"
proof (induction s rule: findall.induct)
  case (1 s)
  show ?case
  proof (cases "s = []")
    case True
    with "1.prems" show ?thesis by (simp add: findall.simps)
  next
    case ne: False
    show ?thesis
    proof (cases "pat_match s")
      case None
      with ne "1.prems" have "t \<in> set (findall (tl s))"
        by (simp add: findall.simps [of s])
      with "1.IH"(1) [OF ne None] show ?thesis .
    next
      case (Some n)
      with ne "1.prems" have "t = take n s \<or> t \<in> set (findall (drop n s))"
        by (simp add: findall.simps [of s])
      then show ?thesis
      proof
        assume "t = take n s"
        with pat_match_pos [OF Some] ne show ?thesis by simp
      next
        assume "t \<in> set (findall (drop n s))"
        with "1.IH"(2) [OF ne Some] show ?thesis .
      qed
    qed
  qed
qed

lemma lower_char_space: "is_space c \<Longrightarrow> lower_char c = c"
  by (auto simp: is_space_def lower_char_def Let_def)

lemma lower_spaces: "\<forall>c\<in>set s. is_space c \<Longrightarrow> lower s = s"
  by (induction s) (simp_all add: lower_def lower_char_space)

lemma sub_spaces_all_space:
  "\<forall>c\<in>set s. is_space c \<Longrightarrow> sub_spaces s = (if s = [] then [] else '' '')"
proof (cases s)
  case Nil
  then show ?thesis by simp
next
  case (Cons a list)
  assume "\<forall>c\<in>set s. is_space c"
  with Cons have a: "is_space a" and d: "dropWhile is_space list = []" by simp_all
  show ?thesis unfolding Cons by (simp add: a d)
qed

lemma findall_space: "findall '' '' = []"
  by code_simp

lemma findall_Nil: "findall [] = []"
  by (simp add: findall.simps)

lemma findall_whitespace:
  "\<forall>c\<in>set text. is_space c \<Longrightarrow> findall (sub_spaces (lower text)) = []"
  by (simp add: lower_spaces sub_spaces_all_space findall_space findall_Nil)

text \<open>
  C10. For the empty string and for a string of whitespace only, the pattern finds no
  token and \<^verbatim>\<open>tokenize\<close> with both markers returns the ids of the two markers,
  leaving the tokenizer as it was; the vocabulary is assumed to hold the two markers, as
  \<^verbatim>\<open>bos_token\<close> and \<^verbatim>\<open>eos_token\<close> need. No coarse token of any string is
  empty, so \<^verbatim>\<open>bpe\<close> is never called on the empty string.
\<close>

theorem tokenize_whitespace_only:
  assumes "\<forall>c\<in>set text. is_space c"
    and "vocab tk bos = Some b" and "vocab tk eos = Some e"
  shows "tokenize ord tk text True True = (Inr [b, e], tk)
         \<and> findall (sub_spaces (lower text)) = []
         \<and> (\<forall>s. [] \<notin> set (findall s))"
  using assms findall_nonempty
  by (auto simp: tokenize_def findall_whitespace add_bos_def add_eos_def bos_token_def
        eos_token_def vocab_lookup_def)

theorem tokenize_whitespace_only_witness:
  "fst (tokenize const_order (init example_ranks example_vocab)
          [CHR '' '', CHR 0x09, CHR 0x0A] True True) = Inr [6, 7]
   \<and> fst (tokenize const_order (init example_ranks example_vocab) [] True True) = Inr [6, 7]"
  using tokenize_whitespace_only [of "[CHR '' '', CHR 0x09, CHR 0x0A]"
          "init example_ranks example_vocab" 6 7 const_order]
    tokenize_whitespace_only [of "[]" "init example_ranks example_vocab" 6 7 const_order]
  by (simp add: is_space_def init_def example_vocab_def bos_def eos_def)

lemma cache_ext_refl: "cache_ext c c"
  by (simp add: cache_ext_def)

lemma cache_ext_Some: "cache_ext c c' \<Longrightarrow> c t = Some v \<Longrightarrow> c' t = Some v"
  unfolding cache_ext_def by (metis option.distinct(1))

lemma cache_ext_None:
  "cache_ext c c' \<Longrightarrow> c t = None
   \<Longrightarrow> unigrams_of t = Inl err \<or> (unigrams_of t = Inr us \<and> bigrams us = [])
   \<Longrightarrow> c' t = None"
  unfolding cache_ext_def by (metis Inl_Inr_False sum.inject(2))

lemma cache_ext_trans: "cache_ext c c' \<Longrightarrow> cache_ext c' c'' \<Longrightarrow> cache_ext c c''"
  unfolding cache_ext_def by metis

lemma bpe_cache_ext: "cache_ext (cache tk) (cache (snd (bpe ord tk t)))"
  by (auto simp: bpe_def cache_ext_def Let_def split: option.splits sum.splits)

lemma bpe_all_cache_ext:
  "bpe_all ord tk ts = (r, tk1) \<Longrightarrow> cache_ext (cache tk) (cache tk1)"
proof (induction ts arbitrary: tk r tk1)
  case Nil
  then show ?case by (simp add: cache_ext_refl)
next
  case (Cons t ts)
  obtain x tk2 where b: "bpe ord tk t = (x, tk2)" by (cases "bpe ord tk t")
  have e: "cache_ext (cache tk) (cache tk2)"
    using bpe_cache_ext [of tk ord t] b by simp
  show ?case
  proof (cases x)
    case (Inl err)
    with Cons.prems b e show ?thesis by simp
  next
    case (Inr v)
    obtain r2 tk3 where ba: "bpe_all ord tk2 ts = (r2, tk3)" by (cases "bpe_all ord tk2 ts")
    with Cons.prems b Inr have "tk1 = tk3" by (auto split: sum.splits)
    with Cons.IH [OF ba] e show ?thesis by (auto intro: cache_ext_trans)
  qed
qed

text \<open>What the first call returned is returned again from any later cache, whatever the
  merge table and the iteration order.\<close>

lemma bpe_again:
  assumes b: "bpe ord tk t = (x, tk2)"
    and e: "cache_ext (cache tk2) (cache tkF)"
  shows "bpe ord' (tkF\<lparr>bpe_ranks := ranks'\<rparr>) t = (x, tkF\<lparr>bpe_ranks := ranks'\<rparr>)"
proof (cases "cache tk t")
  case (Some v)
  with b have x: "x = Inr v" and "tk2 = tk" by (simp_all add: bpe_def)
  with e Some have "cache tkF t = Some v" by (auto dest: cache_ext_Some)
  with x show ?thesis by (simp add: bpe_def)
next
  case None
  show ?thesis
  proof (cases "unigrams_of t")
    case (Inl err)
    with None b have x: "x = Inl err" and tk2: "tk2 = tk" by (simp_all add: bpe_def)
    from e tk2 None Inl have "cache tkF t = None" by (auto dest: cache_ext_None)
    with Inl x show ?thesis by (simp add: bpe_def)
  next
    case (Inr us)
    show ?thesis
    proof (cases "bigrams us = []")
      case True
      with None Inr b have x: "x = Inr (PList us)" and tk2: "tk2 = tk" by (simp_all add: bpe_def)
      from e tk2 None Inr True have "cache tkF t = None" by (auto dest: cache_ext_None)
      with Inr True x show ?thesis by (simp add: bpe_def)
    next
      case False
      with None Inr b have "cache tk2 t = Some (PList (bpe_loop ord (bpe_ranks tk) us))"
        and x: "x = Inr (PList (bpe_loop ord (bpe_ranks tk) us))"
        by (auto simp: bpe_def Let_def)
      with e have "cache tkF t = Some (PList (bpe_loop ord (bpe_ranks tk) us))"
        by (auto dest: cache_ext_Some)
      with x show ?thesis by (simp add: bpe_def)
    qed
  qed
qed

lemma bpe_all_again:
  "bpe_all ord tk ts = (r, tk1) \<Longrightarrow> cache_ext (cache tk1) (cache tkF)
   \<Longrightarrow> bpe_all ord' (tkF\<lparr>bpe_ranks := ranks'\<rparr>) ts = (r, tkF\<lparr>bpe_ranks := ranks'\<rparr>)"
proof (induction ts arbitrary: tk r tk1)
  case Nil
  then show ?case by simp
next
  case (Cons t ts)
  obtain x tk2 where b: "bpe ord tk t = (x, tk2)" by (cases "bpe ord tk t")
  show ?case
  proof (cases x)
    case (Inl err)
    with Cons.prems b have "r = Inl err" and "tk1 = tk2" by simp_all
    with bpe_again [OF b, of tkF ord' ranks'] Cons.prems(2) Inl show ?thesis by simp
  next
    case (Inr v)
    obtain r2 tk3 where ba: "bpe_all ord tk2 ts = (r2, tk3)" by (cases "bpe_all ord tk2 ts")
    with Cons.prems(1) b Inr have tk1: "tk1 = tk3"
      and r: "r = (case r2 of Inl e \<Rightarrow> Inl e | Inr rest \<Rightarrow> Inr (iterate v @ rest))"
      by (auto split: sum.splits)
    have e2: "cache_ext (cache tk2) (cache tkF)"
      using bpe_all_cache_ext [OF ba] Cons.prems(2) tk1 by (auto intro: cache_ext_trans)
    have again: "bpe ord' (tkF\<lparr>bpe_ranks := ranks'\<rparr>) t = (Inr v, tkF\<lparr>bpe_ranks := ranks'\<rparr>)"
      using bpe_again [OF b e2] Inr by simp
    have rest: "bpe_all ord' (tkF\<lparr>bpe_ranks := ranks'\<rparr>) ts = (r2, tkF\<lparr>bpe_ranks := ranks'\<rparr>)"
      using Cons.IH [OF ba] Cons.prems(2) tk1 by simp
    show ?thesis by (simp add: again rest r split: sum.splits)
  qed
qed

lemma tokenize_again:
  assumes "tokenize ord tk text pb ae = (r, tk1)"
  shows "tokenize ord' (tk1\<lparr>bpe_ranks := ranks'\<rparr>) text pb ae = (r, tk1\<lparr>bpe_ranks := ranks'\<rparr>)"
proof -
  let ?ts = "findall (sub_spaces (lower text))"
  obtain x tk2 where ba: "bpe_all ord tk ?ts = (x, tk2)" by (cases "bpe_all ord tk ?ts")
  with assms have tk: "tk1 = tk2"
    by (auto simp: tokenize_def Let_def split: sum.splits)
  have again: "bpe_all ord' (tk2\<lparr>bpe_ranks := ranks'\<rparr>) ?ts = (x, tk2\<lparr>bpe_ranks := ranks'\<rparr>)"
    using bpe_all_again [OF ba, of tk2 ord' ranks'] by (simp add: cache_ext_refl)
  have l: "lookup_all (tk2\<lparr>bpe_ranks := ranks'\<rparr>) ys = lookup_all tk2 ys" for ys
    by (induction ys) (auto simp: vocab_lookup_def split: sum.splits option.splits)
  have b: "add_bos (tk2\<lparr>bpe_ranks := ranks'\<rparr>) pb ys = add_bos tk2 pb ys" for ys
    by (simp add: add_bos_def bos_token_def vocab_lookup_def)
  have e: "add_eos (tk2\<lparr>bpe_ranks := ranks'\<rparr>) ae ys = add_eos tk2 ae ys" for ys
    by (simp add: add_eos_def eos_token_def vocab_lookup_def)
  from assms ba show ?thesis
    unfolding tk by (auto simp: tokenize_def Let_def again l b e split: sum.splits)
qed

lemma bpe_stores:
  assumes "cache tk t = None" and "2 \<le> length t"
  shows "\<exists>res. bpe ord tk t = (Inr (PList res), tk\<lparr>cache := (cache tk)(t \<mapsto> PList res)\<rparr>)"
proof -
  from assms(2) have "t \<noteq> []" by auto
  then obtain us where us: "unigrams_of t = Inr us" by (simp add: unigrams_of_def)
  then have "length us = length t" by (auto simp: unigrams_of_def split: if_splits)
  with assms(2) have "bigrams us \<noteq> []" by (simp add: bigrams_Nil)
  with us assms(1) show ?thesis by (simp add: bpe_def Let_def)
qed

lemma bpe_single:
  assumes "cache tk [c] = None"
  shows "bpe ord tk [c] = (Inr (PList [c # ''</w>'']), tk)"
  using assms by (simp add: bpe_def unigrams_of_def bigrams_def)


lemma bpe_nonempty_ok: "t \<noteq> [] \<Longrightarrow> \<exists>v. fst (bpe ord tk t) = Inr v"
  by (auto simp: bpe_def unigrams_of_def Let_def split: option.splits)

lemma bpe_all_cached:
  "bpe_all ord tk ts = (r, tk1) \<Longrightarrow> [] \<notin> set ts
   \<Longrightarrow> \<forall>t\<in>set ts. 2 \<le> length t \<longrightarrow> cache tk1 t \<noteq> None"
proof (induction ts arbitrary: tk r tk1)
  case Nil
  then show ?case by simp
next
  case (Cons t ts)
  from Cons.prems(2) have t: "t \<noteq> []" and ts: "[] \<notin> set ts" by auto
  obtain x tk2 where b: "bpe ord tk t = (x, tk2)" by (cases "bpe ord tk t")
  with bpe_nonempty_ok [OF t, of ord tk] obtain v where x: "x = Inr v" by auto
  obtain r2 tk3 where ba: "bpe_all ord tk2 ts = (r2, tk3)" by (cases "bpe_all ord tk2 ts")
  with Cons.prems(1) b x have tk1: "tk1 = tk3" by (auto split: sum.splits)
  have "cache tk1 t \<noteq> None" if len: "2 \<le> length t"
  proof (cases "cache tk t")
    case None
    from bpe_stores [OF None len, of ord] b have "cache tk2 t \<noteq> None" by auto
    with bpe_all_cache_ext [OF ba] tk1 show ?thesis by (auto dest: cache_ext_Some)
  next
    case (Some v')
    with bpe_cache_ext [of tk ord t] b have "cache tk2 t = Some v'"
      by (auto dest: cache_ext_Some)
    with bpe_all_cache_ext [OF ba] tk1 show ?thesis by (auto dest: cache_ext_Some)
  qed
  with Cons.IH [OF ba ts] tk1 show ?case by simp
qed

text \<open>
  C4, as stated, fails: for a coarse token of one character \<^verbatim>\<open>bpe\<close> returns
  before the cache is written, so the cache does not hold that string afterwards.
\<close>

theorem bpe_single_character_not_cached:
  "fst (bpe const_order (init example_ranks example_vocab) ''a'') = Inr (PList [''a</w>''])
   \<and> cache (snd (bpe const_order (init example_ranks example_vocab) ''a'')) ''a'' = None
   \<and> cache (snd (tokenize const_order (init example_ranks example_vocab) ''a'' True True)) ''a''
       = None"
  by code_simp

text \<open>
  C4, amended. \<^verbatim>\<open>bpe\<close> stores its result for a string of at least two characters
  that was not cached, and returns without storing for a string of one character. A
  second call of \<^verbatim>\<open>tokenize\<close> on the same input returns the same result and
  leaves the tokenizer unchanged, whatever the merge table and the iteration order are
  by then: every coarse token of at least two characters is answered from the cache,
  and no merge loop runs.
\<close>

theorem tokenize_twice:
  assumes "tokenize ord tk text pb ae = (r, tk1)"
  shows "tokenize ord' (tk1\<lparr>bpe_ranks := ranks'\<rparr>) text pb ae = (r, tk1\<lparr>bpe_ranks := ranks'\<rparr>)
    \<and> (\<forall>t\<in>set (findall (sub_spaces (lower text))). 2 \<le> length t \<longrightarrow> cache tk1 t \<noteq> None)
    \<and> (\<forall>t. cache tk t = None \<and> 2 \<le> length t \<longrightarrow>
           (\<exists>res. bpe ord tk t = (Inr (PList res), tk\<lparr>cache := (cache tk)(t \<mapsto> PList res)\<rparr>)))
    \<and> (\<forall>c. cache tk [c] = None \<longrightarrow> bpe ord tk [c] = (Inr (PList [c # ''</w>'']), tk))"
proof -
  let ?ts = "findall (sub_spaces (lower text))"
  obtain x tk2 where ba: "bpe_all ord tk ?ts = (x, tk2)" by (cases "bpe_all ord tk ?ts")
  with assms have tk: "tk1 = tk2"
    by (auto simp: tokenize_def Let_def split: sum.splits)
  have ne: "[] \<notin> set ?ts" using findall_nonempty by blast
  from bpe_all_cached [OF ba ne] tk
  have cached: "\<forall>t\<in>set ?ts. 2 \<le> length t \<longrightarrow> cache tk1 t \<noteq> None" by simp
  from tokenize_again [OF assms] cached bpe_stores bpe_single show ?thesis by blast
qed

theorem tokenize_twice_witness:
  "fst (tokenize const_order (init example_ranks example_vocab) ''ab'' True True) = Inr [6, 5, 7]
   \<and> fst (tokenize const_order
            ((snd (tokenize const_order (init example_ranks example_vocab) ''ab'' True True))
               \<lparr>bpe_ranks := Map.empty\<rparr>) ''ab'' True True) = Inr [6, 5, 7]
   \<and> cache (snd (tokenize const_order (init example_ranks example_vocab) ''ab'' True True)) ''ab''
       \<noteq> None"
proof -
  let ?tk = "init example_ranks example_vocab"
  let ?run = "tokenize const_order ?tk ''ab'' True True"
  have f: "fst ?run = Inr [6, 5, 7]" by code_simp
  have ts: "findall (sub_spaces (lower ''ab'')) = [''ab'']" by code_simp
  have run: "?run = (fst ?run, snd ?run)" by simp
  from tokenize_twice [OF run, of const_order Map.empty] f ts show ?thesis by simp
qed

section \<open>Properties of the text encoder\<close>

lemma argmax_from_greatest:
  "length pre = i \<Longrightarrow> bi < i \<Longrightarrow> pre ! bi = bv \<Longrightarrow> \<forall>v\<in>set pre. v \<le> bv
   \<Longrightarrow> argmax_from bi bv i vs < length (pre @ vs)
       \<and> (\<forall>v\<in>set (pre @ vs). v \<le> (pre @ vs) ! argmax_from bi bv i vs)"
proof (induction vs arbitrary: bi bv i pre)
  case Nil
  then show ?case by simp
next
  case (Cons v vs)
  show ?case
  proof (cases "bv < v")
    case True
    have "argmax_from i v (Suc i) vs < length ((pre @ [v]) @ vs)
       \<and> (\<forall>w\<in>set ((pre @ [v]) @ vs). w \<le> ((pre @ [v]) @ vs) ! argmax_from i v (Suc i) vs)"
    proof (rule Cons.IH)
      show "length (pre @ [v]) = Suc i" using Cons.prems(1) by simp
      show "i < Suc i" by simp
      show "(pre @ [v]) ! i = v" using Cons.prems(1) nth_append_length [of pre v "[]"] by auto
      show "\<forall>w\<in>set (pre @ [v]). w \<le> v" using Cons.prems(4) True by fastforce
    qed
    with True show ?thesis by simp
  next
    case False
    have "argmax_from bi bv (Suc i) vs < length ((pre @ [v]) @ vs)
       \<and> (\<forall>w\<in>set ((pre @ [v]) @ vs). w \<le> ((pre @ [v]) @ vs) ! argmax_from bi bv (Suc i) vs)"
    proof (rule Cons.IH)
      show "length (pre @ [v]) = Suc i" using Cons.prems(1) by simp
      show "bi < Suc i" using Cons.prems(2) by simp
      show "(pre @ [v]) ! bi = bv" using Cons.prems(1,2,3) by (simp add: nth_append)
      show "\<forall>w\<in>set (pre @ [v]). w \<le> bv" using Cons.prems(4) False by auto
    qed
    with False show ?thesis by simp
  qed
qed

lemma argmax_row_greatest:
  assumes "r \<noteq> []"
  shows "argmax_row r < length r \<and> r ! argmax_row r = Max (set r)"
proof -
  from assms obtain a vs where r: "r = a # vs" by (cases r) auto
  from argmax_from_greatest [of "[a]" 1 0 a vs]
  have lt: "argmax_from 0 a 1 vs < length r"
    and ge: "\<forall>v\<in>set r. v \<le> r ! argmax_from 0 a 1 vs"
    by (simp_all add: r)
  have "Max (set r) = r ! argmax_from 0 a 1 vs"
  proof (rule Max_eqI)
    show "finite (set r)" by simp
    show "\<And>y. y \<in> set r \<Longrightarrow> y \<le> r ! argmax_from 0 a 1 vs" using ge by simp
    show "r ! argmax_from 0 a 1 vs \<in> set r" using lt by simp
  qed
  with lt show ?thesis by (simp add: argmax_row_def r)
qed

lemma foldl_layers_length:
  "\<forall>l \<in> set ls. \<forall>h k. length (l h k) = length h
   \<Longrightarrow> length (foldl (\<lambda>x l. l x k0) h ls) = length h"
  by (induction ls arbitrary: h) simp_all

lemma embed_fits:
  assumes "n_cols x \<le> max_position_embeddings m"
  shows "embed m x = Inr (map (\<lambda>seq. map2 add_vec seq (position_slice m (n_cols x)))
                            (map (map (token_embedding m)) (rows x)))"
  using assms
  by (simp add: embed_def broadcast_add_def position_slice_def max_position_embeddings_def)

lemma embed_length: "embed m x = Inr x0 \<Longrightarrow> length x0 = length (rows x)"
  by (auto simp: embed_def broadcast_add_def Let_def split: if_splits)

text \<open>
  C5. For a well-shaped batch, whenever the call returns, the last hidden state is the
  final layer norm of what the layer stack makes of the embeddings, and the pooled
  output of each sequence is that hidden state at the position \<^verbatim>\<open>argmax\<close> gives
  for the sequence, which is a position inside the sequence holding its largest token
  id: an index-based pool, not a pool over values. The call does return for a non-empty
  batch that fits the position table.
\<close>

theorem pooled_at_argmax:
  assumes wf: "wf_ids x" and keeps: "keeps_batch m"
  shows "(0 < n_rows x \<and> 0 < n_cols x \<and> n_cols x \<le> max_position_embeddings m
            \<longrightarrow> (\<exists>out. CLIPTextModel_call m x = Inr out))
         \<and> (\<forall>out. CLIPTextModel_call m x = Inr out \<longrightarrow>
               (\<exists>x0. embed m x = Inr x0
                  \<and> last_hidden_state out
                      = final_layer_norm m
                          (foldl (\<lambda>h l. l h (create_additive_causal_mask m (n_cols x)))
                                 x0 (layers m)))
               \<and> length (pooler_output out) = n_rows x
               \<and> (\<forall>b < n_rows x.
                     pooler_output out ! b
                       = last_hidden_state out ! b ! argmax_row (rows x ! b)
                     \<and> argmax_row (rows x ! b) < n_cols x
                     \<and> rows x ! b ! argmax_row (rows x ! b) = Max (set (rows x ! b))))"
proof -
  from wf have lenr: "length (rows x) = n_rows x"
    and row: "\<And>b. b < n_rows x \<Longrightarrow> length (rows x ! b) = n_cols x"
    by (auto simp: wf_ids_def list_all_length)
  from keeps have ls: "\<forall>l \<in> set (layers m). \<forall>h k. length (l h k) = length h"
    and ln: "\<And>h. length (final_layer_norm m h) = length h"
    by (simp_all add: keeps_batch_def)
  have returns: "\<exists>out. CLIPTextModel_call m x = Inr out"
    if "0 < n_rows x" and "0 < n_cols x" and "n_cols x \<le> max_position_embeddings m"
    using that by (simp add: CLIPTextModel_call_def argmax_def embed_fits Let_def)
  have pooled: "(\<exists>x0. embed m x = Inr x0
        \<and> last_hidden_state out
            = final_layer_norm m
                (foldl (\<lambda>h l. l h (create_additive_causal_mask m (n_cols x))) x0 (layers m)))
      \<and> length (pooler_output out) = n_rows x
      \<and> (\<forall>b < n_rows x.
            pooler_output out ! b = last_hidden_state out ! b ! argmax_row (rows x ! b)
            \<and> argmax_row (rows x ! b) < n_cols x
            \<and> rows x ! b ! argmax_row (rows x ! b) = Max (set (rows x ! b)))"
    if call: "CLIPTextModel_call m x = Inr out" for out
  proof -
    from call have N: "0 < n_cols x"
      by (auto simp: CLIPTextModel_call_def argmax_def Let_def split: if_splits)
    then have am: "argmax x = Inr (map argmax_row (rows x))"
      using call by (auto simp: CLIPTextModel_call_def argmax_def Let_def split: if_splits)
    from call am obtain x0 where e: "embed m x = Inr x0"
      by (auto simp: CLIPTextModel_call_def Let_def split: sum.splits)
    define last where "last = final_layer_norm m
      (foldl (\<lambda>h l. l h (create_additive_causal_mask m (n_cols x))) x0 (layers m))"
    from call am e have out: "out = \<lparr>pooler_output = map2 (\<lambda>seq p. seq ! p) last (map argmax_row (rows x)),
                          last_hidden_state = last\<rparr>"
      by (simp add: CLIPTextModel_call_def Let_def last_def)
    have hidden: "\<exists>x0. embed m x = Inr x0
        \<and> last_hidden_state out
            = final_layer_norm m
                (foldl (\<lambda>h l. l h (create_additive_causal_mask m (n_cols x))) x0 (layers m))"
      using e by (simp add: out last_def)
    have len_last: "length last = n_rows x"
      unfolding last_def by (simp only: ln foldl_layers_length [OF ls] embed_length [OF e] lenr)
    have len_pool: "length (pooler_output out) = n_rows x"
      by (simp add: out len_last lenr)
    have each: "pooler_output out ! b = last_hidden_state out ! b ! argmax_row (rows x ! b)
        \<and> argmax_row (rows x ! b) < n_cols x
        \<and> rows x ! b ! argmax_row (rows x ! b) = Max (set (rows x ! b))" if b: "b < n_rows x" for b
    proof -
      from row [OF b] N have "rows x ! b \<noteq> []" by auto
      from argmax_row_greatest [OF this] row [OF b]
      have "argmax_row (rows x ! b) < n_cols x"
        and "rows x ! b ! argmax_row (rows x ! b) = Max (set (rows x ! b))" by simp_all
      moreover have "pooler_output out ! b = last_hidden_state out ! b ! argmax_row (rows x ! b)"
        using b by (simp add: out len_last lenr)
      ultimately show ?thesis by simp
    qed
    from hidden len_pool each show ?thesis by blast
  qed
  from returns pooled show ?thesis by blast
qed

theorem pooled_at_argmax_witness:
  "CLIPTextModel_call (normed_text_model 3) (example_ids [1, 7, 2])
     = Inr \<lparr>pooler_output = [[415]], last_hidden_state = [[[203], [415], [605]]]\<rparr>
   \<and> embed (normed_text_model 3) (example_ids [1, 7, 2]) = Inr [[[101], [207], [302]]]
   \<and> final_layer_norm (normed_text_model 3)
         (foldl (\<lambda>h l. l h ()) [[[101], [207], [302]]] (layers (normed_text_model 3)))
       = [[[203], [415], [605]]]
   \<and> argmax_row [1, 7, 2] = 1
   \<and> [1, 7, 2] ! 1 = Max (set [1, 7, 2 :: int])"
proof -
  let ?m = "normed_text_model 3" and ?x = "example_ids [1, 7, 2]"
  have wf: "wf_ids ?x" by (simp add: wf_ids_def example_ids_def)
  have keeps: "keeps_batch ?m"
    by (simp add: keeps_batch_def normed_text_model_def example_text_model_def)
  have run: "CLIPTextModel_call ?m ?x
     = Inr \<lparr>pooler_output = [[415]], last_hidden_state = [[[203], [415], [605]]]\<rparr>"
    by code_simp
  have e: "embed ?m ?x = Inr [[[101], [207], [302]]]" by code_simp
  have am: "argmax_row [1, 7, 2] = 1" by code_simp
  from pooled_at_argmax [OF wf keeps] run e am show ?thesis
    by (simp add: example_ids_def)
qed





end
